theory Spec2Isabelle
  imports Complex_Main "HOL-Library.AList"
begin

section \<open>Characters and the regular expressions of \<open>analyzer.py\<close>\<close>

text \<open>
  A Python \<open>str\<close> is modelled as a \<open>string\<close> of ASCII code points. On that range
  \<open>str.lower\<close> maps \<open>A..Z\<close> to \<open>a..z\<close>, the class \<open>\s\<close> (and \<open>str.strip\<close>) holds the code
  points 9..13, 28..31 and 32, \<open>\d\<close> the digits \<open>0..9\<close>, and \<open>\w\<close> the letters, the
  digits and the underscore. Floats are modelled as exact reals.
\<close>

definition is_space :: "char \<Rightarrow> bool" where
  "is_space c = (let n = (of_char c :: nat) in (9 \<le> n \<and> n \<le> 13) \<or> (28 \<le> n \<and> n \<le> 32))"

definition is_digit :: "char \<Rightarrow> bool" where
  "is_digit c = (let n = (of_char c :: nat) in 48 \<le> n \<and> n \<le> 57)"

definition is_letter :: "char \<Rightarrow> bool" where
  "is_letter c = (let n = (of_char c :: nat) in (65 \<le> n \<and> n \<le> 90) \<or> (97 \<le> n \<and> n \<le> 122))"

definition is_word :: "char \<Rightarrow> bool" where
  "is_word c = (is_letter c \<or> is_digit c \<or> c = CHR ''_'')"

definition lower_char :: "char \<Rightarrow> char" where
  "lower_char c = (let n = (of_char c :: nat) in if 65 \<le> n \<and> n \<le> 90 then char_of (n + 32) else c)"

definition lower :: "string \<Rightarrow> string" where
  "lower s = map lower_char s"

text \<open>\<open>str.strip()\<close>: drop the whitespace at both ends.\<close>

definition strip :: "string \<Rightarrow> string" where
  "strip s = rev (dropWhile is_space (rev (dropWhile is_space s)))"

subsection \<open>The fragment of \<open>re\<close> that the module uses\<close>

text \<open>
  A pattern is a list of alternatives (\<open>|\<close>), an alternative a sequence of items: one
  character of a class, a greedy \<open>+\<close> over a class, or the assertion \<open>\b\<close>.
\<close>

datatype cls = Lit char | Space | NonSpace | Digit | NotWordNotSpace

fun in_cls :: "cls \<Rightarrow> char \<Rightarrow> bool" where
  "in_cls (Lit a) c = (c = a)"
| "in_cls Space c = is_space c"
| "in_cls NonSpace c = (\<not> is_space c)"
| "in_cls Digit c = is_digit c"
| "in_cls NotWordNotSpace c = (\<not> is_word c \<and> \<not> is_space c)"

datatype item = One cls | Plus cls | Bnd

type_synonym pattern = "item list list"

text \<open>\<open>\b\<close> holds between a word character and a non-word character or an end of the text.\<close>

fun word_before :: "char option \<Rightarrow> bool" where
  "word_before None = False"
| "word_before (Some c) = is_word c"

fun word_after :: "string \<Rightarrow> bool" where
  "word_after [] = False"
| "word_after (c # cs) = is_word c"

text \<open>
  \<open>mlen its prev s\<close> is the length of the match of the sequence \<open>its\<close> at the head of \<open>s\<close>,
  \<open>prev\<close> being the character before it, with the backtracking of \<open>re\<close>: a \<open>+\<close> takes as
  many characters as it can and gives them back one by one while the rest fails.
\<close>

fun mlen :: "item list \<Rightarrow> char option \<Rightarrow> string \<Rightarrow> nat option"
  and greedy :: "cls \<Rightarrow> item list \<Rightarrow> char option \<Rightarrow> string \<Rightarrow> nat option" where
  "mlen [] prev s = Some 0"
| "mlen (One k # r) prev [] = None"
| "mlen (One k # r) prev (c # cs) =
     (if in_cls k c then map_option Suc (mlen r (Some c) cs) else None)"
| "mlen (Bnd # r) prev s =
     (if word_before prev \<noteq> word_after s then mlen r prev s else None)"
| "mlen (Plus k # r) prev s = greedy k r prev s"
| "greedy k r prev [] = None"
| "greedy k r prev (c # cs) =
     (if in_cls k c
      then (case greedy k r (Some c) cs of
              Some n \<Rightarrow> Some (Suc n)
            | None \<Rightarrow> map_option Suc (mlen r (Some c) cs))
      else None)"

text \<open>The alternatives are tried from left to right.\<close>

fun alt_match :: "pattern \<Rightarrow> char option \<Rightarrow> string \<Rightarrow> nat option" where
  "alt_match [] prev s = None"
| "alt_match (a # as) prev s =
     (case mlen a prev s of Some n \<Rightarrow> Some n | None \<Rightarrow> alt_match as prev s)"

text \<open>
  \<open>re.sub(p, repl, s)\<close>: scan from the left; where the pattern matches \<open>n > 0\<close>
  characters, write \<open>repl\<close> and skip them; elsewhere copy the character. No pattern of
  the module matches the empty string, so the rule of \<open>re.sub\<close> for empty matches is
  not needed. \<open>skip\<close> counts the characters of the current match still to pass.
\<close>

fun sub_go :: "pattern \<Rightarrow> string \<Rightarrow> char option \<Rightarrow> nat \<Rightarrow> string \<Rightarrow> string" where
  "sub_go p repl prev skip [] = []"
| "sub_go p repl prev (Suc k) (c # cs) = sub_go p repl (Some c) k cs"
| "sub_go p repl prev 0 (c # cs) =
     (case alt_match p prev (c # cs) of
        Some (Suc n) \<Rightarrow> repl @ sub_go p repl (Some c) n cs
      | _ \<Rightarrow> c # sub_go p repl (Some c) 0 cs)"

definition re_sub :: "pattern \<Rightarrow> string \<Rightarrow> string \<Rightarrow> string" where
  "re_sub p repl s = sub_go p repl None 0 s"

subsection \<open>\<open>preprocess_text\<close>\<close>

text \<open>\<open>r'http\S+|www\S+'\<close>\<close>

definition url_pattern :: pattern where
  "url_pattern =
     [[One (Lit CHR ''h''), One (Lit CHR ''t''), One (Lit CHR ''t''), One (Lit CHR ''p''), Plus NonSpace],
      [One (Lit CHR ''w''), One (Lit CHR ''w''), One (Lit CHR ''w''), Plus NonSpace]]"

text \<open>\<open>r'\S+@\S+'\<close>\<close>

definition email_pattern :: pattern where
  "email_pattern = [[Plus NonSpace, One (Lit CHR ''@''), Plus NonSpace]]"

text \<open>\<open>r'\b\d+\b'\<close>\<close>

definition number_pattern :: pattern where
  "number_pattern = [[Bnd, Plus Digit, Bnd]]"

text \<open>\<open>r'[^\w\s]'\<close>\<close>

definition special_pattern :: pattern where
  "special_pattern = [[One NotWordNotSpace]]"

text \<open>\<open>r'\s+'\<close>\<close>

definition whitespace_pattern :: pattern where
  "whitespace_pattern = [[Plus Space]]"

definition preprocess_text :: "string \<Rightarrow> string" where
  "preprocess_text text =
     (let text = lower text;
          text = re_sub url_pattern [] text;
          text = re_sub email_pattern [] text;
          text = re_sub number_pattern [] text;
          text = re_sub special_pattern '' '' text;
          text = re_sub whitespace_pattern '' '' text
      in strip text)"


section \<open>Keyword extraction\<close>

text \<open>
  The module calls NLTK (\<open>word_tokenize\<close>, \<open>sent_tokenize\<close>, the English stop-word
  corpus) and scikit-learn (\<open>TfidfVectorizer\<close>). They are parameters of the model: a
  call returns a value or raises, and the vectorizer is given the arguments the source
  gives it and returns the feature names zipped with their mean score over the
  sentences (lines 142 to 156).
\<close>

datatype exn = Exception string

record tfidf_params =
  max_features :: int
  stop_words :: "string set"
  ngram_range :: "nat \<times> nat"
  min_df :: int
  max_df :: real
  token_pattern :: string

record nlp =
  word_tokenize :: "string \<Rightarrow> exn + string list"
  sent_tokenize :: "string \<Rightarrow> exn + string list"
  stopwords_english :: "string list"
  tfidf_mean_scores :: "tfidf_params \<Rightarrow> string list \<Rightarrow> exn + (string \<times> real) list"

definition extended_stop_words :: "string list" where
  "extended_stop_words =
     [''said'', ''say'', ''says'', ''would'', ''could'', ''also'', ''may'', ''might'',
      ''one'', ''two'', ''three'', ''first'', ''second'', ''new'', ''like'', ''well'',
      ''get'', ''got'', ''make'', ''made'', ''take'', ''taken'', ''go'', ''going'',
      ''come'', ''coming'', ''see'', ''seen'', ''know'', ''known'', ''think'', ''thought'',
      ''tell'', ''told'', ''find'', ''found'', ''give'', ''given'', ''use'', ''used'',
      ''want'', ''wanted'', ''look'', ''looked'', ''year'', ''years'', ''time'', ''times'',
      ''people'', ''person'', ''thing'', ''things'', ''way'', ''ways'', ''day'', ''days'']"

definition STOP_WORDS :: "nlp \<Rightarrow> string set" where
  "STOP_WORDS L = set (stopwords_english L) \<union> set extended_stop_words"

record keyword =
  word :: string
  weight :: real
  frequency :: int

record analysis =
  words :: "keyword list"
  word_count :: int

subsection \<open>Python primitives\<close>

text \<open>A \<open>dict\<close> keeps its keys in insertion order: an association list.\<close>

definition dict_get :: "('k \<times> 'v) list \<Rightarrow> 'k \<Rightarrow> 'v \<Rightarrow> 'v" where
  "dict_get d k dflt = (case map_of d k of None \<Rightarrow> dflt | Some v \<Rightarrow> v)"

text \<open>\<open>sorted(xs, key=k, reverse=True)\<close> is stable: equal keys keep their order.\<close>

definition sorted_desc :: "('a \<Rightarrow> 'k::linordered_idom) \<Rightarrow> 'a list \<Rightarrow> 'a list" where
  "sorted_desc k xs = sort_key (\<lambda>x. - k x) xs"

text \<open>\<open>xs[:n]\<close>; a negative \<open>n\<close> counts from the end.\<close>

definition slice_to :: "int \<Rightarrow> 'a list \<Rightarrow> 'a list" where
  "slice_to n xs = (if 0 \<le> n then take (nat n) xs else take (length xs - nat (- n)) xs)"

text \<open>\<open>round(x, 3)\<close>, ties to even.\<close>

definition round_half_even :: "real \<Rightarrow> int" where
  "round_half_even x =
     (let f = \<lfloor>x\<rfloor>; d = x - of_int f
      in if d < 1 / 2 then f else if 1 / 2 < d then f + 1 else if even f then f else f + 1)"

definition round3 :: "real \<Rightarrow> real" where
  "round3 x = of_int (round_half_even (x * 1000)) / 1000"

text \<open>\<open>s.split(sep)\<close> for a separator of one character.\<close>

fun split_on :: "char \<Rightarrow> string \<Rightarrow> string list" where
  "split_on d [] = [[]]"
| "split_on d (c # cs) =
     (let r = split_on d cs in if c = d then [] # r else (c # hd r) # tl r)"

text \<open>\<open>word.replace(' ', '_')\<close>\<close>

definition replace_space :: "string \<Rightarrow> string" where
  "replace_space w = map (\<lambda>c. if c = CHR '' '' then CHR ''_'' else c) w"

subsection \<open>\<open>get_word_frequencies\<close>\<close>

definition count_word :: "string set \<Rightarrow> (string \<times> int) list \<Rightarrow> string \<Rightarrow> (string \<times> int) list" where
  "count_word stop freq_dict w =
     (if 3 \<le> length w \<and> w \<notin> stop
      then AList.update w (dict_get freq_dict w 0 + 1) freq_dict
      else freq_dict)"

definition get_word_frequencies :: "nlp \<Rightarrow> string \<Rightarrow> (string \<times> int) list" where
  "get_word_frequencies L text =
     (case word_tokenize L text of
        Inl e \<Rightarrow> []
      | Inr ws \<Rightarrow> foldl (count_word (STOP_WORDS L)) [] ws)"

subsection \<open>\<open>extract_keywords_frequency\<close>\<close>

definition extract_keywords_frequency_body :: "nlp \<Rightarrow> string \<Rightarrow> int \<Rightarrow> exn + keyword list" where
  "extract_keywords_frequency_body L text max_words =
     (let word_freq = get_word_frequencies L text;
          sorted_words = sorted_desc snd word_freq;
          top_words = slice_to max_words sorted_words
      in case top_words of
           [] \<Rightarrow> Inr []
         | (w0, max_freq) # _ \<Rightarrow>
             if max_freq = 0 then Inl (Exception ''ZeroDivisionError'')
             else Inr (map (\<lambda>(w, freq).
                        \<lparr>word = w, weight = round3 (real_of_int freq / real_of_int max_freq),
                         frequency = freq\<rparr>) top_words))"

definition extract_keywords_frequency :: "nlp \<Rightarrow> string \<Rightarrow> int \<Rightarrow> keyword list" where
  "extract_keywords_frequency L text max_words =
     (case extract_keywords_frequency_body L text max_words of
        Inl e \<Rightarrow> []
      | Inr word_data \<Rightarrow> word_data)"

subsection \<open>\<open>extract_keywords_tfidf\<close>\<close>

text \<open>Lines 128 to 132: the sentences, or the fragments between periods.\<close>

definition sentences_of :: "nlp \<Rightarrow> string \<Rightarrow> exn + string list" where
  "sentences_of L text =
     (case sent_tokenize L text of
        Inl e \<Rightarrow> Inl e
      | Inr sentences \<Rightarrow>
          Inr (if length sentences < 3
               then map strip (filter (\<lambda>s. 20 < length (strip s)) (split_on CHR ''.'' text))
               else sentences))"

text \<open>The string \<open>r'\b[a-zA-Z]{3,}\b'\<close>; the backslash is the code point 92.\<close>

definition letters3_pattern :: string where
  "letters3_pattern = CHR 0x5C # ''b[a-zA-Z]{3,}'' @ [CHR 0x5C, CHR ''b'']"

text \<open>Lines 142 to 149: the arguments of \<open>TfidfVectorizer\<close>.\<close>

definition vectorizer :: "nlp \<Rightarrow> int \<Rightarrow> tfidf_params" where
  "vectorizer L max_words =
     \<lparr>max_features = max_words * 3, stop_words = STOP_WORDS L, ngram_range = (1, 2),
      min_df = 1, max_df = 95 / 100, token_pattern = letters3_pattern\<rparr>"

text \<open>Lines 151 to 172: the scored features with a positive mean score.\<close>

definition tfidf_word_data :: "nlp \<Rightarrow> string \<Rightarrow> int \<Rightarrow> string list \<Rightarrow> exn + keyword list" where
  "tfidf_word_data L text max_words sentences =
     (case tfidf_mean_scores L (vectorizer L max_words) sentences of
        Inl e \<Rightarrow> Inl e
      | Inr scored \<Rightarrow>
          (let word_freq = get_word_frequencies L text
           in Inr (map (\<lambda>(w, score).
                     \<lparr>word = replace_space w, weight = score, frequency = dict_get word_freq w 1\<rparr>)
                   (filter (\<lambda>(w, score). 0 < score) scored))))"

text \<open>Lines 177 to 182.\<close>

definition normalize_weights :: "keyword list \<Rightarrow> keyword list" where
  "normalize_weights word_data =
     (case word_data of
        [] \<Rightarrow> []
      | item0 # _ \<Rightarrow>
          (let max_weight = weight item0
           in if 0 < max_weight
              then map (\<lambda>item. item\<lparr>weight := round3 (weight item / max_weight)\<rparr>) word_data
              else word_data))"

definition extract_keywords_tfidf_body :: "nlp \<Rightarrow> string \<Rightarrow> int \<Rightarrow> exn + keyword list" where
  "extract_keywords_tfidf_body L text max_words =
     (case sentences_of L text of
        Inl e \<Rightarrow> Inl e
      | Inr sentences \<Rightarrow>
          if length sentences < 2 then Inr (extract_keywords_frequency L text max_words)
          else (case tfidf_word_data L text max_words sentences of
                  Inl e \<Rightarrow> Inl e
                | Inr word_data \<Rightarrow>
                    Inr (slice_to max_words (normalize_weights (sorted_desc weight word_data)))))"

definition extract_keywords_tfidf :: "nlp \<Rightarrow> string \<Rightarrow> int \<Rightarrow> keyword list" where
  "extract_keywords_tfidf L text max_words =
     (case extract_keywords_tfidf_body L text max_words of
        Inl e \<Rightarrow> extract_keywords_frequency L text max_words
      | Inr result \<Rightarrow> result)"

subsection \<open>\<open>analyze_text\<close>\<close>

definition analyze_text_body :: "nlp \<Rightarrow> string \<Rightarrow> int \<Rightarrow> exn + analysis option" where
  "analyze_text_body L text max_words =
     (let cleaned_text = preprocess_text text
      in if cleaned_text = [] then Inr None
         else (case word_tokenize L (lower cleaned_text) of
                 Inl e \<Rightarrow> Inl e
               | Inr ws \<Rightarrow>
                   (let keywords = extract_keywords_tfidf L cleaned_text max_words
                    in if keywords = [] then Inr None
                       else Inr (Some \<lparr>words = keywords, word_count = int (length ws)\<rparr>))))"

definition analyze_text :: "nlp \<Rightarrow> string \<Rightarrow> int \<Rightarrow> analysis option" where
  "analyze_text L text max_words =
     (case analyze_text_body L text max_words of
        Inl e \<Rightarrow> None
      | Inr r \<Rightarrow> r)"

section \<open>Auxiliary notions\<close>

definition first_pos :: "'a list \<Rightarrow> 'a \<Rightarrow> nat" where
  "first_pos xs x = length (takeWhile (\<lambda>y. y \<noteq> x) xs)"

definition tokens_of :: "nlp \<Rightarrow> string \<Rightarrow> string list" where
  "tokens_of L t = (case word_tokenize L t of Inl e \<Rightarrow> [] | Inr ws \<Rightarrow> ws)"

definition top_words :: "nlp \<Rightarrow> string \<Rightarrow> int \<Rightarrow> (string \<times> int) list" where
  "top_words L t max_words = slice_to max_words (sorted_desc snd (get_word_frequencies L t))"

definition ranked :: "real list \<Rightarrow> bool" where
  "ranked ws = (sorted_wrt (\<lambda>a b. b \<le> a) ws
     \<and> (\<forall>w \<in> set ws. 0 \<le> w \<and> w \<le> 1 \<and> (\<exists>m::int. w = of_int m / 1000))
     \<and> (ws \<noteq> [] \<longrightarrow> hd ws = 1))"

definition split_words :: "string \<Rightarrow> string list" where
  "split_words t = filter (\<lambda>w. w \<noteq> []) (split_on CHR '' '' t)"

definition split_sentences :: "string \<Rightarrow> string list" where
  "split_sentences t = filter (\<lambda>s. s \<noteq> []) (map strip (split_on CHR ''.'' t))"

definition sample_scores :: "tfidf_params \<Rightarrow> string list \<Rightarrow> exn + (string \<times> real) list" where
  "sample_scores p docs =
     (if max_features p \<le> 0 then Inl (Exception ''InvalidParameterError'')
      else Inr (take (nat (max_features p))
             (filter (\<lambda>(w, s). 3 \<le> length w \<and> w \<notin> stop_words p)
                [(''cat'', 3 / 10), (''happy'', 1 / 5), (''happy cat'', 1 / 10), (''mat'', 1 / 10),
                 (''purrs'', 1 / 10), (''the'', 1 / 2), (''sat'', 0)])))"

definition sample_nlp :: nlp where
  "sample_nlp =
     \<lparr>word_tokenize = (\<lambda>t. Inr (split_words t)),
      sent_tokenize = (\<lambda>t. Inr (split_sentences t)),
      stopwords_english = [''the'', ''a'', ''an'', ''is'', ''of'', ''on'', ''was''],
      tfidf_mean_scores = sample_scores\<rparr>"

definition failing_nlp :: nlp where
  "failing_nlp = sample_nlp\<lparr>sent_tokenize := (\<lambda>t. Inl (Exception ''LookupError''))\<rparr>"

section \<open>Lemmas\<close>

lemma round_half_even_bounds: "\<lfloor>x\<rfloor> \<le> round_half_even x \<and> round_half_even x \<le> \<lfloor>x\<rfloor> + 1"
  by (simp add: round_half_even_def Let_def)

lemma round_half_even_mono:
  assumes "x \<le> y" shows "round_half_even x \<le> round_half_even y"
proof (cases "\<lfloor>x\<rfloor> = \<lfloor>y\<rfloor>")
  case True
  then show ?thesis using assms by (auto simp: round_half_even_def Let_def)
next
  case False
  with assms have "\<lfloor>x\<rfloor> < \<lfloor>y\<rfloor>" by (simp add: floor_mono le_neq_trans)
  then show ?thesis
    using round_half_even_bounds [of x] round_half_even_bounds [of y] by linarith
qed

lemma round_half_even_of_int [simp]: "round_half_even (of_int m) = m"
  by (simp add: round_half_even_def)

lemma round3_mono: "x \<le> y \<Longrightarrow> round3 x \<le> round3 y"
  by (simp add: round3_def round_half_even_mono divide_right_mono)

lemma round3_0 [simp]: "round3 0 = 0"
  using round_half_even_of_int [of 0] by (simp add: round3_def del: round_half_even_of_int)

lemma round3_1 [simp]: "round3 1 = 1"
  using round_half_even_of_int [of 1000] by (simp add: round3_def del: round_half_even_of_int)

lemma round3_decimal: "\<exists>m::int. round3 x = of_int m / 1000"
  by (auto simp: round3_def)


lemma first_pos_less: "x \<in> set xs \<Longrightarrow> first_pos xs x < length xs"
  unfolding first_pos_def by (induction xs) auto

lemma first_pos_append_in: "x \<in> set xs \<Longrightarrow> first_pos (xs @ ys) x = first_pos xs x"
  unfolding first_pos_def by (simp add: takeWhile_append1)

lemma first_pos_append_notin: "x \<notin> set xs \<Longrightarrow> first_pos (xs @ [x]) x = length xs"
  unfolding first_pos_def by (induction xs) auto

lemma foldl_count_word_snoc:
  "foldl (count_word stop) d (ws @ [w]) = count_word stop (foldl (count_word stop) d ws) w"
  by simp

lemma freq_keys_set:
  "fst ` set (foldl (count_word stop) [] ws) = {w \<in> set ws. 3 \<le> length w \<and> w \<notin> stop}"
proof (induction ws rule: rev_induct)
  case Nil
  then show ?case by simp
next
  case (snoc w ws)
  then show ?case
    by (auto simp: count_word_def AList.dom_update)
qed

lemma freq_lookup:
  "map_of (foldl (count_word stop) [] ws) w =
     (if w \<in> set ws \<and> 3 \<le> length w \<and> w \<notin> stop then Some (int (count_list ws w)) else None)"
proof (induction ws rule: rev_induct)
  case Nil
  then show ?case by simp
next
  case (snoc x ws)
  show ?case
  proof (cases "3 \<le> length x \<and> x \<notin> stop")
    case False
    then show ?thesis using snoc by (auto simp: count_word_def)
  next
    case True
    then show ?thesis using snoc
      by (auto simp: count_word_def AList.update_conv' dict_get_def count_list_0_iff)
  qed
qed

lemma count_word_keys:
  "map fst (count_word stop d x) =
     (if 3 \<le> length x \<and> x \<notin> stop \<and> x \<notin> fst ` set d then map fst d @ [x] else map fst d)"
  by (simp add: count_word_def AList.update_keys)

lemma freq_keys_order:
  "sorted_wrt (\<lambda>a b. first_pos ws a < first_pos ws b) (map fst (foldl (count_word stop) [] ws))"
proof (induction ws rule: rev_induct)
  case Nil
  then show ?case by simp
next
  case (snoc x ws)
  let ?d = "foldl (count_word stop) [] ws"
  have keys: "set (map fst ?d) \<subseteq> set ws"
    using freq_keys_set [of stop ws] by auto
  have old: "sorted_wrt (\<lambda>a b. first_pos (ws @ [x]) a < first_pos (ws @ [x]) b) (map fst ?d)"
    using snoc keys
    by (auto simp: sorted_wrt_iff_nth_less first_pos_append_in subset_iff dest!: nth_mem)
  have step: "foldl (count_word stop) [] (ws @ [x]) = count_word stop ?d x"
    by simp
  show ?case
  proof (cases "3 \<le> length x \<and> x \<notin> stop \<and> x \<notin> fst ` set ?d")
    case False
    then show ?thesis using old unfolding step count_word_keys by auto
  next
    case True
    then have xnotin: "x \<notin> set ws" using freq_keys_set [of stop ws] by auto
    have "\<forall>k \<in> set (map fst ?d). first_pos (ws @ [x]) k < first_pos (ws @ [x]) x"
      using keys xnotin by (auto simp: first_pos_append_in first_pos_append_notin first_pos_less subset_iff)
    then show ?thesis using True old unfolding step count_word_keys
      by (simp add: sorted_wrt_append)
  qed
qed

lemma freq_distinct: "distinct (map fst (foldl (count_word stop) [] ws))"
proof -
  have "sorted_wrt (\<lambda>a b. a \<noteq> b) (map fst (foldl (count_word stop) [] ws))"
    by (rule sorted_wrt_mono_rel [OF _ freq_keys_order [of ws stop]]) auto
  then show ?thesis
    unfolding distinct_conv_nth sorted_wrt_iff_nth_less
    by (metis length_map nat_neq_iff)
qed

lemma freq_positive:
  assumes "(w, f) \<in> set (foldl (count_word stop) [] ws)" shows "1 \<le> f"
proof -
  from assms freq_distinct [of stop ws]
  have "map_of (foldl (count_word stop) [] ws) w = Some f" by simp
  then have "w \<in> set ws" and f: "f = int (count_list ws w)"
    by (auto simp: freq_lookup split: if_splits)
  then have "count_list ws w \<noteq> 0" by (simp add: count_list_0_iff)
  with f show ?thesis by simp
qed


lemma sorted_desc_sorted: "sorted_wrt (\<lambda>a b. k b \<le> k a) (sorted_desc k xs)"
proof -
  have "sorted (map (\<lambda>x. - k x) (sort_key (\<lambda>x. - k x) xs))" by (rule sorted_sort_key)
  then show ?thesis by (simp add: sorted_desc_def sorted_map)
qed

lemma set_sorted_desc [simp]: "set (sorted_desc k xs) = set xs"
  by (simp add: sorted_desc_def)

lemma length_sorted_desc [simp]: "length (sorted_desc k xs) = length xs"
  by (simp add: sorted_desc_def)


lemma slice_to_take: "\<exists>m. slice_to n xs = take m xs"
  by (auto simp: slice_to_def)


lemma set_slice_to: "set (slice_to n xs) \<subseteq> set xs"
  using slice_to_take [of n xs] by (auto dest: in_set_takeD)

lemma sorted_wrt_slice_to: "sorted_wrt R xs \<Longrightarrow> sorted_wrt R (slice_to n xs)"
  using slice_to_take [of n xs] by (auto simp: sorted_wrt_take)

lemma hd_slice_to: "slice_to n xs \<noteq> [] \<Longrightarrow> hd (slice_to n xs) = hd xs"
  using slice_to_take [of n xs] by (auto simp: hd_take)

lemma map_slice_to: "map f (slice_to n xs) = slice_to n (map f xs)"
  by (simp add: slice_to_def take_map)

text \<open>Dividing a descending list of positive values by its head and rounding.\<close>

lemma ratios_ranked:
  fixes vs :: "real list"
  assumes sorted: "sorted_wrt (\<lambda>a b. b \<le> a) vs"
    and pos: "\<forall>v \<in> set vs. 0 < v"
    and ne: "vs \<noteq> []"
  defines "ws \<equiv> map (\<lambda>v. round3 (v / hd vs)) vs"
  shows "sorted_wrt (\<lambda>a b. b \<le> a) ws"
    and "\<forall>w \<in> set ws. 0 \<le> w \<and> w \<le> 1 \<and> (\<exists>m::int. w = of_int m / 1000)"
    and "hd ws = 1"
proof -
  obtain v0 r where vs: "vs = v0 # r" using ne by (cases vs) auto
  have v0: "0 < v0" using pos vs by simp
  have le: "\<forall>v \<in> set vs. v \<le> v0" using sorted vs by auto
  show "sorted_wrt (\<lambda>a b. b \<le> a) ws"
    unfolding ws_def sorted_wrt_map
    by (rule sorted_wrt_mono_rel [OF _ sorted])
       (use v0 vs in \<open>auto intro!: round3_mono divide_right_mono\<close>)
  show "\<forall>w \<in> set ws. 0 \<le> w \<and> w \<le> 1 \<and> (\<exists>m::int. w = of_int m / 1000)"
  proof
    fix w assume "w \<in> set ws"
    then obtain v where v: "v \<in> set vs" and w: "w = round3 (v / hd vs)"
      unfolding ws_def by auto
    have hd: "hd vs = v0" by (simp add: vs)
    note w = w [unfolded hd]
    have "0 \<le> v / v0" "v / v0 \<le> 1" using v pos le v0 by (auto simp: less_imp_le)
    then have "0 \<le> round3 (v / v0)" "round3 (v / v0) \<le> 1"
      using round3_mono [of 0 "v / v0"] round3_mono [of "v / v0" 1] by simp_all
    then show "0 \<le> w \<and> w \<le> 1 \<and> (\<exists>m::int. w = of_int m / 1000)"
      using w round3_decimal [of "v / v0"] by simp
  qed
  show "hd ws = 1" using v0 by (simp add: ws_def vs)
qed


lemma get_word_frequencies_eq:
  "get_word_frequencies L t = foldl (count_word (STOP_WORDS L)) [] (tokens_of L t)"
  by (simp add: get_word_frequencies_def tokens_of_def split: sum.splits)

lemma get_word_frequencies_positive:
  "(w, f) \<in> set (get_word_frequencies L t) \<Longrightarrow> 1 \<le> f"
  unfolding get_word_frequencies_eq by (rule freq_positive)

lemma top_words_positive: "(w, f) \<in> set (top_words L t n) \<Longrightarrow> 1 \<le> f"
  using set_slice_to [of n "sorted_desc snd (get_word_frequencies L t)"]
  by (auto simp: top_words_def dest: get_word_frequencies_positive)

lemma top_words_sorted: "sorted_wrt (\<lambda>a b. snd b \<le> snd a) (top_words L t n)"
  unfolding top_words_def by (intro sorted_wrt_slice_to sorted_desc_sorted)

lemma extract_keywords_frequency_eq:
  "extract_keywords_frequency L t n =
     map (\<lambda>(w, f). \<lparr>word = w,
            weight = round3 (real_of_int f / real_of_int (snd (hd (top_words L t n)))),
            frequency = f\<rparr>) (top_words L t n)"
proof (cases "top_words L t n")
  case Nil
  then show ?thesis
    by (simp add: extract_keywords_frequency_def extract_keywords_frequency_body_def top_words_def)
next
  case (Cons p ps)
  obtain w0 m where p: "p = (w0, m)" by (cases p)
  have "1 \<le> m" using top_words_positive [of w0 m L t n] Cons p by simp
  then show ?thesis using Cons p
    by (simp add: extract_keywords_frequency_def extract_keywords_frequency_body_def
        top_words_def [symmetric] Let_def)
qed

lemma frequency_weights:
  "map weight (extract_keywords_frequency L t n) =
     (let vs = map (\<lambda>p. real_of_int (snd p)) (top_words L t n)
      in map (\<lambda>v. round3 (v / hd vs)) vs)"
  by (cases "top_words L t n")
     (auto simp: extract_keywords_frequency_eq Let_def split_def hd_map)

lemma ranked_ratios:
  "sorted_wrt (\<lambda>a b. b \<le> a) vs \<Longrightarrow> \<forall>v \<in> set vs. 0 < v \<Longrightarrow>
     ranked (map (\<lambda>v. round3 (v / hd vs)) vs)"
  using ratios_ranked [of vs] unfolding ranked_def by (cases "vs = []") auto

lemma ranked_slice: "ranked ws \<Longrightarrow> ranked (slice_to n ws)"
  unfolding ranked_def
  using set_slice_to [of n ws] by (auto simp: sorted_wrt_slice_to hd_slice_to)

lemma frequency_ranked: "ranked (map weight (extract_keywords_frequency L t n))"
proof -
  let ?vs = "map (\<lambda>p. real_of_int (snd p)) (top_words L t n)"
  have "sorted_wrt (\<lambda>a b. b \<le> a) ?vs"
    using top_words_sorted [of L t n] by (simp add: sorted_wrt_map)
  moreover have "\<forall>v \<in> set ?vs. 0 < v"
    using top_words_positive [of _ _ L t n] by fastforce
  ultimately show ?thesis
    unfolding frequency_weights Let_def by (rule ranked_ratios)
qed

lemma normalize_weights_weights:
  "\<forall>k \<in> set sd. 0 < weight k \<Longrightarrow>
     map weight (normalize_weights sd) = map (\<lambda>v. round3 (v / hd (map weight sd))) (map weight sd)"
  by (cases sd) (auto simp: normalize_weights_def Let_def)

lemma tfidf_word_data_positive:
  "tfidf_word_data L t n ss = Inr wd \<Longrightarrow> k \<in> set wd \<Longrightarrow> 0 < weight k"
  by (auto simp: tfidf_word_data_def Let_def split: sum.splits)

lemma tfidf_body_cases:
  assumes "extract_keywords_tfidf_body L t n = Inr ks"
  shows "ks = extract_keywords_frequency L t n
       \<or> (\<exists>ss wd. sentences_of L t = Inr ss \<and> 2 \<le> length ss
            \<and> tfidf_word_data L t n ss = Inr wd
            \<and> ks = slice_to n (normalize_weights (sorted_desc weight wd)))"
  using assms
  by (auto simp: extract_keywords_tfidf_body_def split: sum.splits if_splits)

lemma extract_keywords_tfidf_cases:
  "extract_keywords_tfidf L t n = extract_keywords_frequency L t n
       \<or> (\<exists>ss wd. sentences_of L t = Inr ss \<and> 2 \<le> length ss
            \<and> tfidf_word_data L t n ss = Inr wd
            \<and> extract_keywords_tfidf L t n = slice_to n (normalize_weights (sorted_desc weight wd)))"
proof (cases "extract_keywords_tfidf_body L t n")
  case (Inl e)
  then show ?thesis by (simp add: extract_keywords_tfidf_def)
next
  case (Inr ks)
  then have "extract_keywords_tfidf L t n = ks" by (simp add: extract_keywords_tfidf_def)
  with tfidf_body_cases [OF Inr] show ?thesis by auto
qed

lemma primary_ranked:
  assumes "tfidf_word_data L t n ss = Inr wd"
  shows "ranked (map weight (slice_to n (normalize_weights (sorted_desc weight wd))))"
proof -
  let ?sd = "sorted_desc weight wd"
  have pos: "\<forall>k \<in> set ?sd. 0 < weight k"
    using tfidf_word_data_positive [OF assms] by simp
  have "sorted_wrt (\<lambda>a b. b \<le> a) (map weight ?sd)"
    using sorted_desc_sorted [of weight wd] by (simp add: sorted_wrt_map)
  moreover have "\<forall>v \<in> set (map weight ?sd). 0 < v" using pos by simp
  ultimately have "ranked (map weight (normalize_weights ?sd))"
    unfolding normalize_weights_weights [OF pos] by (rule ranked_ratios)
  then show ?thesis unfolding map_slice_to by (rule ranked_slice)
qed

lemma tfidf_ranked: "ranked (map weight (extract_keywords_tfidf L t n))"
  using extract_keywords_tfidf_cases [of L t n] frequency_ranked [of L t n] primary_ranked
  by (metis)




lemma get_word_frequencies_distinct: "distinct (map fst (get_word_frequencies L t))"
  unfolding get_word_frequencies_eq by (rule freq_distinct)


lemma length_get_word_frequencies:
  "length (get_word_frequencies L t) =
     card {w \<in> set (tokens_of L t). 3 \<le> length w \<and> w \<notin> STOP_WORDS L}"
proof -
  have "length (get_word_frequencies L t) = card (set (map fst (get_word_frequencies L t)))"
    using distinct_card [OF get_word_frequencies_distinct [of L t]] by simp
  also have "set (map fst (get_word_frequencies L t))
      = {w \<in> set (tokens_of L t). 3 \<le> length w \<and> w \<notin> STOP_WORDS L}"
    unfolding get_word_frequencies_eq using freq_keys_set [of "STOP_WORDS L" "tokens_of L t"] by simp
  finally show ?thesis .
qed








lemma frequency_entry:
  assumes "k \<in> set (extract_keywords_frequency L t n)"
  shows "(word k, frequency k) \<in> set (top_words L t n)"
    and "weight k = round3 (real_of_int (frequency k)
            / real_of_int (frequency (hd (extract_keywords_frequency L t n))))"
proof -
  from assms obtain w f where wf: "(w, f) \<in> set (top_words L t n)"
    and k: "k = \<lparr>word = w, weight = round3 (real_of_int f / real_of_int (snd (hd (top_words L t n)))),
                 frequency = f\<rparr>"
    unfolding extract_keywords_frequency_eq by auto
  show "(word k, frequency k) \<in> set (top_words L t n)" using wf k by simp
  have ne: "top_words L t n \<noteq> []" using wf by auto
  have "frequency (hd (extract_keywords_frequency L t n)) = snd (hd (top_words L t n))"
    using ne by (simp add: extract_keywords_frequency_eq hd_map split_def)
  then show "weight k = round3 (real_of_int (frequency k)
            / real_of_int (frequency (hd (extract_keywords_frequency L t n))))"
    using k by simp
qed



lemma length_slice_to_le: "0 \<le> n \<Longrightarrow> length (slice_to n xs) \<le> nat n"
  by (simp add: slice_to_def)

lemma length_slice_to_full: "0 \<le> n \<Longrightarrow> nat n \<le> length xs \<Longrightarrow> length (slice_to n xs) = nat n"
  by (simp add: slice_to_def)

lemma length_normalize_weights [simp]: "length (normalize_weights xs) = length xs"
  by (cases xs) (simp_all add: normalize_weights_def Let_def)

lemma normalize_weights_word: "map word (normalize_weights xs) = map word xs"
  by (cases xs) (simp_all add: normalize_weights_def Let_def)

lemma normalize_weights_frequency: "map frequency (normalize_weights xs) = map frequency xs"
  by (cases xs) (simp_all add: normalize_weights_def Let_def)

lemma normalize_weights_entry:
  assumes k: "k \<in> set (normalize_weights xs)"
  shows "\<exists>x \<in> set xs. word k = word x \<and> frequency k = frequency x"
proof (cases xs)
  case Nil
  then show ?thesis using k by (simp add: normalize_weights_def)
next
  case (Cons y ys)
  show ?thesis
  proof (cases "0 < weight y")
    case True
    have nw: "normalize_weights xs
        = map (\<lambda>item. item\<lparr>weight := round3 (weight item / weight y)\<rparr>) xs"
      using Cons True by (simp add: normalize_weights_def Let_def)
    from k obtain x where "x \<in> set xs" "k = x\<lparr>weight := round3 (weight x / weight y)\<rparr>"
      unfolding nw by auto
    then show ?thesis by (intro bexI [of _ x]) auto
  next
    case False
    with Cons k have "k \<in> set xs" by (simp add: normalize_weights_def Let_def)
    then show ?thesis by blast
  qed
qed

lemma primary_entry:
  assumes "k \<in> set (slice_to n (normalize_weights (sorted_desc weight wd)))"
  shows "\<exists>x \<in> set wd. word k = word x \<and> frequency k = frequency x"
proof -
  have "k \<in> set (normalize_weights (sorted_desc weight wd))"
    using assms set_slice_to [of n "normalize_weights (sorted_desc weight wd)"] by (rule subsetD [rotated])
  from normalize_weights_entry [OF this] show ?thesis by simp
qed

lemma tfidf_word_data_entry:
  assumes "tfidf_word_data L t n ss = Inr wd" and "x \<in> set wd"
  shows "\<exists>scored. tfidf_mean_scores L (vectorizer L n) ss = Inr scored
          \<and> (\<exists>w s. (w, s) \<in> set scored \<and> 0 < s \<and> word x = replace_space w
               \<and> frequency x = (case map_of (get_word_frequencies L t) w of None \<Rightarrow> 1 | Some f \<Rightarrow> f))"
proof -
  from assms(1) obtain scored where sc: "tfidf_mean_scores L (vectorizer L n) ss = Inr scored"
    and wd: "wd = map (\<lambda>(w, score).
                 \<lparr>word = replace_space w, weight = score,
                  frequency = dict_get (get_word_frequencies L t) w 1\<rparr>)
               (filter (\<lambda>(w, score). 0 < score) scored)"
    by (auto simp: tfidf_word_data_def Let_def split: sum.splits)
  from assms(2) wd obtain w s where "(w, s) \<in> set scored" "0 < s"
    "x = \<lparr>word = replace_space w, weight = s,
          frequency = dict_get (get_word_frequencies L t) w 1\<rparr>"
    by auto
  then have "\<exists>w s. (w, s) \<in> set scored \<and> 0 < s \<and> word x = replace_space w
               \<and> frequency x = (case map_of (get_word_frequencies L t) w of None \<Rightarrow> 1 | Some f \<Rightarrow> f)"
    by (intro exI [of _ w] exI [of _ s]) (simp add: dict_get_def)
  with sc show ?thesis by blast
qed

lemma lookup_positive:
  "1 \<le> (case map_of (get_word_frequencies L t) w of None \<Rightarrow> 1 | Some f \<Rightarrow> f)"
proof (cases "map_of (get_word_frequencies L t) w")
  case None
  then show ?thesis by simp
next
  case (Some f)
  then have "(w, f) \<in> set (get_word_frequencies L t)" by (rule map_of_SomeD)
  then have "1 \<le> f" by (rule get_word_frequencies_positive)
  with Some show ?thesis by simp
qed

lemma frequency_path_positive:
  "k \<in> set (extract_keywords_frequency L t n) \<Longrightarrow> 1 \<le> frequency k"
  using frequency_entry(1) [of k L t n] top_words_positive [of "word k" "frequency k" L t n] by simp





lemma primary_result_entry:
  assumes "tfidf_word_data L t n ss = Inr wd"
    and "k \<in> set (slice_to n (normalize_weights (sorted_desc weight wd)))"
  shows "\<exists>scored. tfidf_mean_scores L (vectorizer L n) ss = Inr scored
          \<and> (\<exists>w s. (w, s) \<in> set scored \<and> 0 < s \<and> word k = replace_space w
               \<and> frequency k = (case map_of (get_word_frequencies L t) w of None \<Rightarrow> 1 | Some f \<Rightarrow> f))"
proof -
  from primary_entry [OF assms(2)] obtain x where x: "x \<in> set wd"
    and eq: "word k = word x" "frequency k = frequency x" by blast
  from tfidf_word_data_entry [OF assms(1) x] show ?thesis unfolding eq .
qed

lemma keyword_frequency_positive:
  assumes "k \<in> set (extract_keywords_tfidf L t n)" shows "1 \<le> frequency k"
proof -
  from extract_keywords_tfidf_cases [of L t n] show ?thesis
  proof
    assume "extract_keywords_tfidf L t n = extract_keywords_frequency L t n"
    with assms show ?thesis by (simp add: frequency_path_positive)
  next
    assume "\<exists>ss wd. sentences_of L t = Inr ss \<and> 2 \<le> length ss
            \<and> tfidf_word_data L t n ss = Inr wd
            \<and> extract_keywords_tfidf L t n = slice_to n (normalize_weights (sorted_desc weight wd))"
    then obtain ss wd where wd: "tfidf_word_data L t n ss = Inr wd"
      and r: "extract_keywords_tfidf L t n = slice_to n (normalize_weights (sorted_desc weight wd))"
      by blast
    have "k \<in> set (slice_to n (normalize_weights (sorted_desc weight wd)))"
      using assms r by simp
    from primary_result_entry [OF wd this] obtain w where
      "frequency k = (case map_of (get_word_frequencies L t) w of None \<Rightarrow> 1 | Some f \<Rightarrow> f)"
      by blast
    then show ?thesis using lookup_positive [of L t w] by simp
  qed
qed

lemma primary_path_result:
  assumes "sentences_of L t = Inr ss" "2 \<le> length ss" "tfidf_word_data L t n ss = Inr wd"
  shows "extract_keywords_tfidf L t n = slice_to n (normalize_weights (sorted_desc weight wd))"
  using assms by (simp add: extract_keywords_tfidf_def extract_keywords_tfidf_body_def)

lemma set_sub_go: "set (sub_go p r prev k s) \<subseteq> set s \<union> set r"
  by (induction p r prev k s rule: sub_go.induct) (auto split: option.splits nat.splits)

lemma set_strip: "set (strip s) \<subseteq> set s"
proof -
  have "set (dropWhile is_space (rev (dropWhile is_space s))) \<subseteq> set (rev (dropWhile is_space s))"
    by (rule set_dropWhileD [THEN subsetI])
  also have "\<dots> \<subseteq> set s" by (auto dest: set_dropWhileD)
  finally show ?thesis by (simp add: strip_def)
qed

lemma lower_char_idem [simp]: "lower_char (lower_char c) = lower_char c"
  by (simp add: lower_char_def Let_def)

lemma lower_char_space [simp]: "lower_char CHR '' '' = CHR '' ''"
  by (simp add: lower_char_def)

lemma set_re_sub: "set (re_sub p r s) \<subseteq> set s \<union> set r"
  unfolding re_sub_def by (rule set_sub_go)

lemma preprocess_text_chars:
  "set (preprocess_text t) \<subseteq> lower_char ` set t \<union> {CHR '' ''}"
proof -
  define t1 where "t1 = re_sub url_pattern [] (lower t)"
  define t2 where "t2 = re_sub email_pattern [] t1"
  define t3 where "t3 = re_sub number_pattern [] t2"
  define t4 where "t4 = re_sub special_pattern '' '' t3"
  define t5 where "t5 = re_sub whitespace_pattern '' '' t4"
  have p: "preprocess_text t = strip t5"
    by (simp add: preprocess_text_def t1_def t2_def t3_def t4_def t5_def)
  have "set t1 \<subseteq> set (lower t)" using set_re_sub [of url_pattern "[]" "lower t"] by (simp add: t1_def)
  moreover have "set t2 \<subseteq> set t1" using set_re_sub [of email_pattern "[]" t1] by (simp add: t2_def)
  moreover have "set t3 \<subseteq> set t2" using set_re_sub [of number_pattern "[]" t2] by (simp add: t3_def)
  moreover have "set t4 \<subseteq> set t3 \<union> {CHR '' ''}"
    using set_re_sub [of special_pattern "'' ''" t3] by (simp add: t4_def)
  moreover have "set t5 \<subseteq> set t4 \<union> {CHR '' ''}"
    using set_re_sub [of whitespace_pattern "'' ''" t4] by (simp add: t5_def)
  moreover have "set (strip t5) \<subseteq> set t5" by (rule set_strip)
  ultimately have "set (preprocess_text t) \<subseteq> set (lower t) \<union> {CHR '' ''}"
    unfolding p by blast
  then show ?thesis by (simp add: lower_def)
qed

lemma lower_preprocess_text [simp]: "lower (preprocess_text t) = preprocess_text t"
  unfolding lower_def
proof (rule map_idI)
  fix c assume "c \<in> set (preprocess_text t)"
  then have "c \<in> lower_char ` set t \<union> {CHR '' ''}" using preprocess_text_chars by blast
  then show "lower_char c = c" by auto
qed

lemma analyze_text_eq:
  "analyze_text L t n =
     (if preprocess_text t = [] then None
      else case word_tokenize L (preprocess_text t) of
             Inl e \<Rightarrow> None
           | Inr ws \<Rightarrow>
               if extract_keywords_tfidf L (preprocess_text t) n = [] then None
               else Some \<lparr>words = extract_keywords_tfidf L (preprocess_text t) n,
                          word_count = int (length ws)\<rparr>)"
  by (simp add: analyze_text_def analyze_text_body_def Let_def split: sum.splits)

lemma frequency_body_total:
  "extract_keywords_frequency_body L t n = Inr (extract_keywords_frequency L t n)"
proof (cases "top_words L t n")
  case Nil
  then show ?thesis
    by (simp add: extract_keywords_frequency_def extract_keywords_frequency_body_def top_words_def)
next
  case (Cons p ps)
  obtain w0 m where p: "p = (w0, m)" by (cases p)
  have "1 \<le> m" using top_words_positive [of w0 m L t n] Cons p by simp
  then show ?thesis using Cons p
    by (simp add: extract_keywords_frequency_def extract_keywords_frequency_body_def
        top_words_def [symmetric] Let_def)
qed

lemma tokenizer_failure_empties_fallback:
  "word_tokenize L t = Inl e \<Longrightarrow> extract_keywords_frequency L t n = []"
  by (simp add: extract_keywords_frequency_eq top_words_def get_word_frequencies_def slice_to_def
      sorted_desc_def)

lemma length_frequencies_le_tokens:
  "length (get_word_frequencies L t) \<le> length (tokens_of L t)"
proof -
  have "card {w \<in> set (tokens_of L t). 3 \<le> length w \<and> w \<notin> STOP_WORDS L} \<le> card (set (tokens_of L t))"
    by (rule card_mono) auto
  also have "\<dots> \<le> length (tokens_of L t)" by (rule card_length)
  finally show ?thesis by (simp add: length_get_word_frequencies)
qed

section \<open>The claims\<close>

text \<open>
  C1. Whenever keyword extraction, by the TF-IDF path or by the frequency fallback,
  returns a non-empty list, the entries are sorted by weight descending, every weight
  lies in [0, 1] and is a multiple of 1/1000, and the first entry, which carries the
  maximum weight, has weight exactly 1.
\<close>

theorem keyword_weights_ranked:
  assumes "ks = extract_keywords_tfidf L t max_words
         \<or> ks = extract_keywords_frequency L t max_words"
    and "ks \<noteq> []"
  shows "sorted_wrt (\<lambda>a b. weight b \<le> weight a) ks
       \<and> (\<forall>k \<in> set ks. 0 \<le> weight k \<and> weight k \<le> 1 \<and> (\<exists>m::int. weight k = of_int m / 1000))
       \<and> weight (hd ks) = 1
       \<and> Max (weight ` set ks) = 1"
proof -
  have r: "ranked (map weight ks)"
    using assms(1) tfidf_ranked frequency_ranked by auto
  have s: "sorted_wrt (\<lambda>a b. weight b \<le> weight a) ks"
    using r by (simp add: ranked_def sorted_wrt_map)
  have b: "\<forall>k \<in> set ks. 0 \<le> weight k \<and> weight k \<le> 1 \<and> (\<exists>m::int. weight k = of_int m / 1000)"
    using r by (simp add: ranked_def)
  have h: "weight (hd ks) = 1" using r assms(2) by (simp add: ranked_def hd_map)
  have "Max (weight ` set ks) = 1"
  proof (rule Max_eqI)
    show "finite (weight ` set ks)" by simp
    show "\<And>y. y \<in> weight ` set ks \<Longrightarrow> y \<le> 1" using b by auto
    show "1 \<in> weight ` set ks" using h assms(2) by (metis hd_in_set imageI)
  qed
  with s b h show ?thesis by simp
qed


theorem keyword_weights_ranked_witness:
  "extract_keywords_tfidf sample_nlp
       ''the cat sat on the mat. the cat was happy. a happy cat purrs.'' 5 \<noteq> []
   \<and> map weight (extract_keywords_tfidf sample_nlp
       ''the cat sat on the mat. the cat was happy. a happy cat purrs.'' 5)
      = [1, 667 / 1000, 333 / 1000, 333 / 1000, 333 / 1000]
   \<and> Max (weight ` set (extract_keywords_tfidf sample_nlp
       ''the cat sat on the mat. the cat was happy. a happy cat purrs.'' 5)) = 1"
proof -
  let ?ks = "extract_keywords_tfidf sample_nlp
       ''the cat sat on the mat. the cat was happy. a happy cat purrs.'' 5"
  have ne: "?ks \<noteq> []" by code_simp
  have ws: "map weight ?ks = [1, 667 / 1000, 333 / 1000, 333 / 1000, 333 / 1000]" by code_simp
  from keyword_weights_ranked [OF disjI1 [OF refl] ne] ne ws show ?thesis by simp
qed





text \<open>
  C6. On the TF-IDF path every returned term comes from a feature with a positive
  mean score; its frequency is the entry of the whole-text frequency map under the
  feature name as the vectorizer gives it (a bigram with its space), or 1 when the
  map has no such entry, while the returned term has the spaces replaced by \<open>_\<close>.
  The frequency of every returned keyword, on either path, is at least 1.
\<close>

theorem primary_frequency_lookup:
  assumes "sentences_of L t = Inr ss" and "2 \<le> length ss"
    and "tfidf_mean_scores L (vectorizer L n) ss = Inr scored"
  shows "(\<forall>k \<in> set (extract_keywords_tfidf L t n).
            \<exists>w s. (w, s) \<in> set scored \<and> 0 < s \<and> word k = replace_space w
              \<and> frequency k = (case map_of (get_word_frequencies L t) w of
                                 None \<Rightarrow> 1 | Some f \<Rightarrow> f))
       \<and> (\<forall>k \<in> set (extract_keywords_tfidf L t n). 1 \<le> frequency k)"
proof -
  obtain wd where wd: "tfidf_word_data L t n ss = Inr wd"
    using assms(3) by (simp add: tfidf_word_data_def Let_def)
  note r = primary_path_result [OF assms(1,2) wd]
  have "\<forall>k \<in> set (extract_keywords_tfidf L t n).
            \<exists>w s. (w, s) \<in> set scored \<and> 0 < s \<and> word k = replace_space w
              \<and> frequency k = (case map_of (get_word_frequencies L t) w of
                                 None \<Rightarrow> 1 | Some f \<Rightarrow> f)"
  proof
    fix k assume "k \<in> set (extract_keywords_tfidf L t n)"
    then have "k \<in> set (slice_to n (normalize_weights (sorted_desc weight wd)))"
      using r by simp
    from primary_result_entry [OF wd this] assms(3)
    show "\<exists>w s. (w, s) \<in> set scored \<and> 0 < s \<and> word k = replace_space w
              \<and> frequency k = (case map_of (get_word_frequencies L t) w of
                                 None \<Rightarrow> 1 | Some f \<Rightarrow> f)"
      by simp
  qed
  then show ?thesis using keyword_frequency_positive by blast
qed

theorem primary_frequency_lookup_witness:
  "sentences_of sample_nlp ''the cat sat on the mat. the cat was happy. a happy cat purrs.''
     = Inr [''the cat sat on the mat'', ''the cat was happy'', ''a happy cat purrs'']
   \<and> map (\<lambda>k. (word k, frequency k)) (extract_keywords_tfidf sample_nlp
         ''the cat sat on the mat. the cat was happy. a happy cat purrs.'' 5)
       = [(''cat'', 3), (''happy'', 1), (''happy_cat'', 1), (''mat'', 1), (''purrs'', 1)]
   \<and> list_all (\<lambda>k. 1 \<le> frequency k) (extract_keywords_tfidf sample_nlp
         ''the cat sat on the mat. the cat was happy. a happy cat purrs.'' 5)"
proof -
  let ?t = "''the cat sat on the mat. the cat was happy. a happy cat purrs.''"
  let ?ss = "[''the cat sat on the mat'', ''the cat was happy'', ''a happy cat purrs'']"
  have s: "sentences_of sample_nlp ?t = Inr ?ss" by code_simp
  have l: "2 \<le> length ?ss" by simp
  have v: "tfidf_mean_scores sample_nlp (vectorizer sample_nlp 5) ?ss
     = Inr [(''cat'', 3 / 10), (''happy'', 1 / 5), (''happy cat'', 1 / 10), (''mat'', 1 / 10),
            (''purrs'', 1 / 10), (''sat'', 0)]" by code_simp
  have r: "map (\<lambda>k. (word k, frequency k)) (extract_keywords_tfidf sample_nlp ?t 5)
       = [(''cat'', 3), (''happy'', 1), (''happy_cat'', 1), (''mat'', 1), (''purrs'', 1)]"
    by code_simp
  have "list_all (\<lambda>k. 1 \<le> frequency k) (extract_keywords_tfidf sample_nlp ?t 5)"
    unfolding list_all_iff using primary_frequency_lookup [OF s l v, THEN conjunct2] .
  with s r show ?thesis by (intro conjI)
qed

text \<open>
  C7. For \<open>max_words \<ge> 1\<close> either path returns at most \<open>max_words\<close> keywords, and
  exactly \<open>max_words\<close> when the candidates of that path (the frequency map, or the
  features with a positive score) are at least that many. The vectorizer is asked
  for at most \<open>max_words * 3\<close> features: provided it returns no more features than
  its \<open>max_features\<close>, the candidates of the TF-IDF path are at most \<open>3 * max_words\<close>.
\<close>

theorem result_length_bounded:
  "(1 \<le> n \<longrightarrow> length (extract_keywords_tfidf L t n) \<le> nat n
              \<and> length (extract_keywords_frequency L t n) \<le> nat n)
   \<and> (1 \<le> n \<and> nat n \<le> length (get_word_frequencies L t) \<longrightarrow>
        length (extract_keywords_frequency L t n) = nat n)
   \<and> (\<forall>ss wd. 1 \<le> n \<and> sentences_of L t = Inr ss \<and> 2 \<le> length ss
         \<and> tfidf_word_data L t n ss = Inr wd \<longrightarrow>
         (nat n \<le> length wd \<longrightarrow> length (extract_keywords_tfidf L t n) = nat n)
         \<and> ((\<forall>p docs scored. tfidf_mean_scores L p docs = Inr scored \<longrightarrow>
                 length scored \<le> nat (max_features p)) \<longrightarrow>
              length wd \<le> 3 * nat n \<and> card (word ` set wd) \<le> 3 * nat n))"
proof (intro conjI impI allI)
  assume n: "1 \<le> n"
  show f: "length (extract_keywords_frequency L t n) \<le> nat n"
    using n by (simp add: extract_keywords_frequency_eq top_words_def length_slice_to_le)
  from extract_keywords_tfidf_cases [of L t n]
  show "length (extract_keywords_tfidf L t n) \<le> nat n"
    using f n by (auto simp: length_slice_to_le)
next
  assume "1 \<le> n \<and> nat n \<le> length (get_word_frequencies L t)"
  then show "length (extract_keywords_frequency L t n) = nat n"
    by (simp add: extract_keywords_frequency_eq top_words_def length_slice_to_full)
next
  fix ss wd
  assume a: "1 \<le> n \<and> sentences_of L t = Inr ss \<and> 2 \<le> length ss
         \<and> tfidf_word_data L t n ss = Inr wd"
  then have r: "extract_keywords_tfidf L t n = slice_to n (normalize_weights (sorted_desc weight wd))"
    by (simp add: primary_path_result)
  { assume "nat n \<le> length wd"
    then show "length (extract_keywords_tfidf L t n) = nat n"
      using a by (simp add: r length_slice_to_full) }
  assume c: "\<forall>p docs scored. tfidf_mean_scores L p docs = Inr scored \<longrightarrow>
                 length scored \<le> nat (max_features p)"
  from a obtain scored where sc: "tfidf_mean_scores L (vectorizer L n) ss = Inr scored"
    and wd: "length wd = length (filter (\<lambda>(w, score). 0 < score) scored)"
    by (auto simp: tfidf_word_data_def Let_def split: sum.splits)
  have "length scored \<le> nat (max_features (vectorizer L n))" using c sc by blast
  also have "\<dots> = 3 * nat n" using a by (simp add: vectorizer_def nat_mult_distrib)
  finally have "length scored \<le> 3 * nat n" .
  moreover have "length wd \<le> length scored" unfolding wd by (rule length_filter_le)
  ultimately show l: "length wd \<le> 3 * nat n" by simp
  have "card (word ` set wd) \<le> card (set wd)" by (rule card_image_le) simp
  also have "\<dots> \<le> length wd" by (rule card_length)
  finally show "card (word ` set wd) \<le> 3 * nat n" using l by simp
qed

theorem result_length_bounded_witness:
  "tfidf_word_data sample_nlp ''the cat sat on the mat. the cat was happy. a happy cat purrs.'' 1
       [''the cat sat on the mat'', ''the cat was happy'', ''a happy cat purrs'']
     = Inr [\<lparr>word = ''cat'', weight = 3 / 10, frequency = 3\<rparr>,
            \<lparr>word = ''happy'', weight = 1 / 5, frequency = 1\<rparr>,
            \<lparr>word = ''happy_cat'', weight = 1 / 10, frequency = 1\<rparr>]
   \<and> length (extract_keywords_tfidf sample_nlp
         ''the cat sat on the mat. the cat was happy. a happy cat purrs.'' 1) = 1
   \<and> length [\<lparr>word = ''cat'', weight = 3 / 10, frequency = 3\<rparr>,
            \<lparr>word = ''happy'', weight = 1 / 5, frequency = 1\<rparr>,
            \<lparr>word = ''happy_cat'', weight = 1 / 10, frequency = 1\<rparr>] \<le> 3 * nat 1"
proof -
  let ?t = "''the cat sat on the mat. the cat was happy. a happy cat purrs.''"
  let ?ss = "[''the cat sat on the mat'', ''the cat was happy'', ''a happy cat purrs'']"
  let ?wd = "[\<lparr>word = ''cat'', weight = 3 / 10, frequency = 3\<rparr>,
            \<lparr>word = ''happy'', weight = 1 / 5, frequency = 1\<rparr>,
            \<lparr>word = ''happy_cat'', weight = 1 / 10, frequency = 1\<rparr>]"
  have s: "sentences_of sample_nlp ?t = Inr ?ss" by code_simp
  have wd: "tfidf_word_data sample_nlp ?t 1 ?ss = Inr ?wd" by code_simp
  have c: "\<forall>p docs scored. tfidf_mean_scores sample_nlp p docs = Inr scored \<longrightarrow>
             length scored \<le> nat (max_features p)"
    by (auto simp: sample_nlp_def sample_scores_def split: if_splits)
  have h: "(1::int) \<le> 1 \<and> sentences_of sample_nlp ?t = Inr ?ss \<and> 2 \<le> length ?ss
         \<and> tfidf_word_data sample_nlp ?t 1 ?ss = Inr ?wd"
    using s wd by simp
  have n: "nat 1 \<le> length ?wd" by simp
  note b = result_length_bounded [where n = 1 and L = sample_nlp and t = ?t,
      THEN conjunct2, THEN conjunct2, THEN spec, THEN spec, THEN mp, OF h]
  from b [THEN conjunct1, THEN mp, OF n] b [THEN conjunct2, THEN mp, OF c] wd
  show ?thesis by simp
qed

text \<open>
  C2 as the spec states it: an empty normalized text fails with \<open>EmptyContent\<close>, an
  empty keyword list with the distinct failure \<open>NoKeywordsExtracted\<close>, and the caller
  can tell the two apart. In the source both failures are the return value \<open>None\<close>:
  the empty input and an input of stop words only give the same result.
\<close>

theorem failure_causes_not_distinguished:
  "preprocess_text '''' = []
   \<and> preprocess_text ''the a an is of'' \<noteq> []
   \<and> extract_keywords_tfidf sample_nlp (preprocess_text ''the a an is of'') 50 = []
   \<and> extract_keywords_frequency sample_nlp (preprocess_text ''the a an is of'') 50 = []
   \<and> analyze_text sample_nlp '''' 50 = None
   \<and> analyze_text sample_nlp ''the a an is of'' 50 = None"
  by code_simp

text \<open>
  C2, amended. \<open>analyze_text\<close> returns \<open>None\<close> when the normalized text is empty and
  when the extracted keyword list is empty; \<open>None\<close> is its only failure value, returned
  for exactly three causes: empty normalized text, a tokenizer that raises, no keywords.
\<close>

theorem analyze_failures_return_none:
  "(preprocess_text t = [] \<longrightarrow> analyze_text L t n = None)
   \<and> (extract_keywords_tfidf L (preprocess_text t) n = [] \<longrightarrow> analyze_text L t n = None)
   \<and> (analyze_text L t n = None \<longleftrightarrow>
        preprocess_text t = []
        \<or> (\<exists>e. word_tokenize L (preprocess_text t) = Inl e)
        \<or> extract_keywords_tfidf L (preprocess_text t) n = [])"
  by (auto simp: analyze_text_eq split: sum.splits)

theorem analyze_failures_return_none_witness:
  "preprocess_text '''' = [] \<and> analyze_text sample_nlp '''' 50 = None
   \<and> extract_keywords_tfidf sample_nlp (preprocess_text ''the a an is of'') 50 = []
   \<and> analyze_text sample_nlp ''the a an is of'' 50 = None"
proof -
  have e: "preprocess_text '''' = []" by code_simp
  have k: "extract_keywords_tfidf sample_nlp (preprocess_text ''the a an is of'') 50 = []"
    by code_simp
  from analyze_failures_return_none [where L = sample_nlp and n = 50 and t = "''''",
         THEN conjunct1, THEN mp, OF e]
       analyze_failures_return_none [where L = sample_nlp and n = 50 and t = "''the a an is of''",
         THEN conjunct2, THEN conjunct1, THEN mp, OF k] e k
  show ?thesis by (intro conjI)
qed

text \<open>
  C4. When the body of \<open>extract_keywords_tfidf\<close> raises (in the sentence tokenizer or
  in the vectorizer), the function returns what the frequency path returns, and the
  body of the frequency path never raises. If the body raises on the normalized text,
  \<open>analyze_text\<close> fails exactly when that text is empty or the frequency path yields
  nothing, and otherwise returns the keywords of the frequency path. The only
  exception that reaches the handler of \<open>analyze_text\<close> is one of its own call of the
  word tokenizer, and it is turned into \<open>None\<close>.
\<close>

theorem primary_failure_falls_back:
  "(\<forall>e. extract_keywords_tfidf_body L t n = Inl e \<longrightarrow>
        extract_keywords_tfidf L t n = extract_keywords_frequency L t n)
   \<and> extract_keywords_frequency_body L t n = Inr (extract_keywords_frequency L t n)
   \<and> (\<forall>e. extract_keywords_tfidf_body L (preprocess_text t) n = Inl e \<longrightarrow>
        (analyze_text L t n = None \<longleftrightarrow>
           preprocess_text t = [] \<or> extract_keywords_frequency L (preprocess_text t) n = [])
      \<and> (\<forall>r. analyze_text L t n = Some r \<longrightarrow>
             words r = extract_keywords_frequency L (preprocess_text t) n))
   \<and> (\<forall>e. analyze_text_body L t n = Inl e \<longrightarrow>
        word_tokenize L (preprocess_text t) = Inl e \<and> analyze_text L t n = None)"
proof (intro conjI allI impI)
  fix e assume "extract_keywords_tfidf_body L t n = Inl e"
  then show "extract_keywords_tfidf L t n = extract_keywords_frequency L t n"
    by (simp add: extract_keywords_tfidf_def)
next
  show "extract_keywords_frequency_body L t n = Inr (extract_keywords_frequency L t n)"
    by (rule frequency_body_total)
next
  fix e assume "extract_keywords_tfidf_body L (preprocess_text t) n = Inl e"
  then have f: "extract_keywords_tfidf L (preprocess_text t) n
                = extract_keywords_frequency L (preprocess_text t) n"
    by (simp add: extract_keywords_tfidf_def)
  show "analyze_text L t n = None \<longleftrightarrow>
           preprocess_text t = [] \<or> extract_keywords_frequency L (preprocess_text t) n = []"
    using tokenizer_failure_empties_fallback [of L "preprocess_text t" _ n]
    by (auto simp: analyze_text_eq f split: sum.splits)
  fix r assume "analyze_text L t n = Some r"
  then show "words r = extract_keywords_frequency L (preprocess_text t) n"
    by (auto simp: analyze_text_eq f split: sum.splits if_splits)
next
  fix e assume b: "analyze_text_body L t n = Inl e"
  then show "word_tokenize L (preprocess_text t) = Inl e"
    by (auto simp: analyze_text_body_def Let_def split: sum.splits if_splits)
  show "analyze_text L t n = None" using b by (simp add: analyze_text_def)
qed

theorem primary_failure_falls_back_witness:
  "extract_keywords_tfidf_body failing_nlp (preprocess_text ''The cat sat. The cat purrs!'') 5
     = Inl (Exception ''LookupError'')
   \<and> analyze_text failing_nlp ''The cat sat. The cat purrs!'' 5 \<noteq> None
   \<and> map word (extract_keywords_frequency failing_nlp
         (preprocess_text ''The cat sat. The cat purrs!'') 5) = [''cat'', ''sat'', ''purrs'']
   \<and> words (the (analyze_text failing_nlp ''The cat sat. The cat purrs!'' 5))
     = extract_keywords_frequency failing_nlp (preprocess_text ''The cat sat. The cat purrs!'') 5"
proof -
  let ?t = "''The cat sat. The cat purrs!''"
  have b: "extract_keywords_tfidf_body failing_nlp (preprocess_text ?t) 5
     = Inl (Exception ''LookupError'')" by code_simp
  have a: "analyze_text failing_nlp ?t 5 \<noteq> None" by code_simp
  then obtain r where r: "analyze_text failing_nlp ?t 5 = Some r" by blast
  have f: "map word (extract_keywords_frequency failing_nlp (preprocess_text ?t) 5)
     = [''cat'', ''sat'', ''purrs'']" by code_simp
  note p = primary_failure_falls_back [where L = failing_nlp and t = ?t and n = 5,
      THEN conjunct2, THEN conjunct2, THEN conjunct1, THEN spec, THEN mp, OF b]
  from p [THEN conjunct2, THEN spec, THEN mp, OF r] r
  have "words (the (analyze_text failing_nlp ?t 5))
     = extract_keywords_frequency failing_nlp (preprocess_text ?t) 5" by simp
  with b a f show ?thesis by (intro conjI)
qed

text \<open>
  C8. When \<open>analyze_text\<close> succeeds, \<open>word_count\<close> is the number of tokens the word
  tokenizer returns for the normalized text, none filtered out; it is at least the
  number of entries of the frequency map, and can be more (six tokens against three
  entries for \<open>the cat sat on the mat\<close>). Conversely, a non-empty normalized text
  that tokenizes into \<open>ws\<close> and has keywords is reported with \<open>word_count = length ws\<close>.
\<close>

theorem word_count_is_token_count:
  "(\<forall>r. analyze_text L t n = Some r \<longrightarrow>
       preprocess_text t \<noteq> []
     \<and> word_tokenize L (preprocess_text t) = Inr (tokens_of L (preprocess_text t))
     \<and> word_count r = int (length (tokens_of L (preprocess_text t)))
     \<and> int (length (get_word_frequencies L (preprocess_text t))) \<le> word_count r)
   \<and> (\<forall>ws. preprocess_text t \<noteq> [] \<and> word_tokenize L (preprocess_text t) = Inr ws
          \<and> extract_keywords_tfidf L (preprocess_text t) n \<noteq> [] \<longrightarrow>
        (\<exists>r. analyze_text L t n = Some r \<and> word_count r = int (length ws)))
   \<and> (\<exists>r. analyze_text sample_nlp ''the cat sat on the mat'' 5 = Some r
          \<and> int (length (get_word_frequencies sample_nlp (preprocess_text ''the cat sat on the mat'')))
              < word_count r)"
proof (intro conjI allI impI)
  fix r assume r: "analyze_text L t n = Some r"
  then show ne: "preprocess_text t \<noteq> []" by (auto simp: analyze_text_eq split: if_splits)
  from r ne obtain ws where ws: "word_tokenize L (preprocess_text t) = Inr ws"
    and wc: "word_count r = int (length ws)"
    by (auto simp: analyze_text_eq split: if_splits sum.splits)
  then have tk: "tokens_of L (preprocess_text t) = ws" by (simp add: tokens_of_def)
  show "word_tokenize L (preprocess_text t) = Inr (tokens_of L (preprocess_text t))"
    using ws tk by simp
  show "word_count r = int (length (tokens_of L (preprocess_text t)))" using wc tk by simp
  show "int (length (get_word_frequencies L (preprocess_text t))) \<le> word_count r"
    using length_frequencies_le_tokens [of L "preprocess_text t"] wc tk by simp
next
  fix ws assume "preprocess_text t \<noteq> [] \<and> word_tokenize L (preprocess_text t) = Inr ws
          \<and> extract_keywords_tfidf L (preprocess_text t) n \<noteq> []"
  then show "\<exists>r. analyze_text L t n = Some r \<and> word_count r = int (length ws)"
    by (simp add: analyze_text_eq)
next
  have "analyze_text sample_nlp ''the cat sat on the mat'' 5 \<noteq> None" by code_simp
  then obtain r where r: "analyze_text sample_nlp ''the cat sat on the mat'' 5 = Some r" by blast
  have "word_count (the (analyze_text sample_nlp ''the cat sat on the mat'' 5)) = 6" by code_simp
  moreover have "length (get_word_frequencies sample_nlp (preprocess_text ''the cat sat on the mat'')) = 3"
    by code_simp
  ultimately show "\<exists>r. analyze_text sample_nlp ''the cat sat on the mat'' 5 = Some r
          \<and> int (length (get_word_frequencies sample_nlp (preprocess_text ''the cat sat on the mat'')))
              < word_count r"
    using r by simp
qed

theorem word_count_is_token_count_witness:
  "analyze_text sample_nlp ''The cat sat on the mat.'' 5 \<noteq> None
   \<and> tokens_of sample_nlp (preprocess_text ''The cat sat on the mat.'')
       = [''the'', ''cat'', ''sat'', ''on'', ''the'', ''mat'']
   \<and> word_count (the (analyze_text sample_nlp ''The cat sat on the mat.'' 5)) = 6"
proof -
  let ?t = "''The cat sat on the mat.''"
  have a: "analyze_text sample_nlp ?t 5 \<noteq> None" by code_simp
  then obtain r where r: "analyze_text sample_nlp ?t 5 = Some r" by blast
  have k: "tokens_of sample_nlp (preprocess_text ?t)
       = [''the'', ''cat'', ''sat'', ''on'', ''the'', ''mat'']" by code_simp
  from word_count_is_token_count [where L = sample_nlp and t = ?t and n = 5,
      THEN conjunct1, THEN spec, THEN mp, OF r] r k
  have "word_count (the (analyze_text sample_nlp ?t 5)) = 6" by simp
  with a k show ?thesis by (intro conjI)
qed

end
